theory Spec2Isabelle
  imports Main
begin

section \<open>Python values used by s3upload.py\<close>



text \<open>
  Exceptions of the program. An exception raised by a call into the storage backend is
  known by its \<^verbatim>\<open>repr\<close>. \<open>ThreadError\<close> is \<^verbatim>\<open>threading.ThreadError(msg)\<close>,
  \<open>Exception\<close> is \<^verbatim>\<open>Exception(msg)\<close>, \<open>ValueError\<close> is raised by the thread pool for
  a size below one and by \<^verbatim>\<open>read\<close> for a size below -1, \<open>UnboundLocalError\<close> names
  the local variable read before its assignment, \<open>OverflowError\<close> and \<open>MemoryError\<close>
  are raised by \<^verbatim>\<open>read\<close> for a size it cannot serve, and \<open>TypeError\<close> by
  \<^verbatim>\<open>StringIO\<close> for an initial value that is not a \<^verbatim>\<open>str\<close>.
\<close>

datatype exn =
    BackendError string
  | ThreadError string
  | Exception string
  | ValueError string
  | UnboundLocalError string
  | OverflowError
  | MemoryError
  | TypeError string



text \<open>
  A part handed to the uploader is either a \<^verbatim>\<open>BytesIO\<close> object (its content and its
  current position) or a plain string. An element of a \<open>string\<close> here is one unit of
  what Python's \<^verbatim>\<open>len\<close> counts: a byte of a byte stream, a character of a \<^verbatim>\<open>str\<close>
  fragment.
\<close>

datatype part_data = BytesIO string nat | Str string




section \<open>The chunker\<close>









text \<open>
  The numbering of the submission loop (lines 132-133):
  \<^verbatim>\<open>for part_no, part in enumerate(iterable): part_no += 1\<close>.
\<close>

definition numbered :: "'a list \<Rightarrow> (nat \<times> 'a) list" where
  "numbered iterable = map (\<lambda>(part_no, part). (part_no + 1, part)) (List.enumerate 0 iterable)"

section \<open>The part uploader\<close>

text \<open>
  One call of the backend's \<^verbatim>\<open>upload_func\<close> on a part: where it leaves the position of
  the part buffer, and the \<^verbatim>\<open>repr\<close> of the exception it raises, if it raises one
  (any subclass of \<^verbatim>\<open>Exception\<close>, a failing progress callback included). The backend
  is a function from the number of the call (from 0) to what that call does.
\<close>

record attempt =
  leaves_at :: nat
  raises :: "string option"

text \<open>
  What happens to the part buffer: \<open>Seek p\<close> moves it to position \<open>p\<close>, and
  \<open>Upload_func part_no p\<close> is a call of the backend for part \<open>part_no\<close> on a buffer
  standing at position \<open>p\<close>.
\<close>

datatype part_event = Seek nat | Upload_func nat nat

text \<open>
  The retry loop of \<^verbatim>\<open>upload_part\<close> (lines 62-70), by recursion on
  \<^verbatim>\<open>retries_left\<close>; the call made with \<open>retries_left\<close> left is call number
  \<open>5 - retries_left\<close>. \<open>thread\<close> is \<^verbatim>\<open>repr(threading.current_thread())\<close>. The result
  is the value returned: \<open>None\<close>, or the error object.
\<close>

fun retry_loop ::
  "(nat \<Rightarrow> attempt) \<Rightarrow> string \<Rightarrow> nat \<Rightarrow> nat \<Rightarrow> nat \<Rightarrow> part_event list
     \<Rightarrow> exn option \<times> part_event list" where
  "retry_loop upload_func thread part_no 0 pos evs = (None, evs)"
| "retry_loop upload_func thread part_no (Suc retries_left) pos evs =
     (let pos = 0;
          evs = evs @ [Seek pos, Upload_func part_no pos];
          a = upload_func (5 - Suc retries_left)
      in case raises a of
           None \<Rightarrow> (None, evs)
         | Some exc \<Rightarrow>
             if retries_left = 0 then (Some (ThreadError (thread @ '' '' @ exc)), evs)
             else retry_loop upload_func thread part_no retries_left (leaves_at a) evs)"

text \<open>
  \<^verbatim>\<open>upload_part\<close> (lines 55-73). A part without a \<^verbatim>\<open>read\<close> method is wrapped in a
  \<^verbatim>\<open>StringIO\<close>, which stands at position 0.
\<close>

definition upload_part ::
  "(nat \<Rightarrow> attempt) \<Rightarrow> string \<Rightarrow> nat \<Rightarrow> part_data \<Rightarrow> exn option \<times> part_event list" where
  "upload_part upload_func thread part_no part_data =
     retry_loop upload_func thread part_no 5
       (case part_data of BytesIO d p \<Rightarrow> p | Str s \<Rightarrow> 0) []"

text \<open>The calls of the backend in a trace, and whether each stands right after a rewind.\<close>

fun calls :: "part_event list \<Rightarrow> nat" where
  "calls [] = 0"
| "calls (Seek p # evs) = calls evs"
| "calls (Upload_func n p # evs) = Suc (calls evs)"

fun rewound :: "part_event list \<Rightarrow> bool" where
  "rewound [] = True"
| "rewound (Seek p # Upload_func n q # evs) = (p = 0 \<and> q = 0 \<and> rewound evs)"
| "rewound evs = False"

section \<open>The upload coordinator and the transaction\<close>

text \<open>Calls of the storage backend made by the thread that runs \<^verbatim>\<open>upload\<close>.\<close>

datatype call =
    S3Connection
  | Get_bucket
  | Lookup string
  | Initiate_multipart_upload string
  | Complete_upload
  | Cancel_upload

text \<open>
  What is outside the program during one call of \<^verbatim>\<open>upload\<close>: which backend calls
  raise, what \<^verbatim>\<open>b.lookup(key)\<close> finds, what \<^verbatim>\<open>upload_part_from_file\<close> does on each
  call for each part, the \<^verbatim>\<open>repr\<close> of the pool thread that runs the task of each
  part, and the exception the iterable raises in place of ending, if it raises one.
\<close>

record env =
  connect_raises :: "exn option"
  get_bucket_raises :: "exn option"
  lookup_result :: "exn + bool"
  initiate_raises :: "exn option"
  upload_part_from_file :: "nat \<Rightarrow> nat \<Rightarrow> attempt"
  worker :: "nat \<Rightarrow> string"
  iter_raises :: "exn option"
  complete_raises :: "exn option"
  cancel_raises :: "exn option"

text \<open>
  Lines 96-105, before the \<^verbatim>\<open>try\<close>: the connection, the bucket, the existence check
  (made only when \<^verbatim>\<open>replace\<close> is false) and the start of the multipart upload. The
  result is the backend calls made and the exception raised, if any.
\<close>

definition initiate :: "env \<Rightarrow> string \<Rightarrow> call list \<Rightarrow> call list \<times> exn option" where
  "initiate env key calls_made = (calls_made @ [Initiate_multipart_upload key], initiate_raises env)"

definition preflight :: "env \<Rightarrow> string \<Rightarrow> bool \<Rightarrow> call list \<times> exn option" where
  "preflight env key replace =
     (case connect_raises env of
        Some e \<Rightarrow> ([S3Connection], Some e)
      | None \<Rightarrow>
         (case get_bucket_raises env of
            Some e \<Rightarrow> ([S3Connection, Get_bucket], Some e)
          | None \<Rightarrow>
             if replace then initiate env key [S3Connection, Get_bucket]
             else (case lookup_result env of
                     Inl e \<Rightarrow> ([S3Connection, Get_bucket, Lookup key], Some e)
                   | Inr found \<Rightarrow>
                       if found
                       then ([S3Connection, Get_bucket, Lookup key],
                             Some (Exception (''s3 key '' @ key @ '' already exists'')))
                       else initiate env key [S3Connection, Get_bucket, Lookup key])))"

text \<open>
  Where the thread that runs \<^verbatim>\<open>upload\<close> stands inside lines 110-148:
  \<open>Mk_pool\<close> line 111; \<open>For_loop\<close> lines 132-134, the next item of the iterable and
  \<^verbatim>\<open>apply_async\<close>; \<open>Incr\<close> line 135; \<open>Wait_test\<close> line 122, the test of the
  \<^verbatim>\<open>while\<close> in \<^verbatim>\<open>waiter\<close>; \<open>Wait_check\<close> lines 123-124; \<open>Join\<close> lines 138-139;
  \<open>Final_check\<close> line 143; \<open>Complete\<close> line 144; \<open>Except e\<close> lines 145-148, with
  the exception caught; \<open>Finished r\<close>, the call is over, having returned (\<open>None\<close>) or
  raised.
\<close>

datatype pc =
    Mk_pool
  | For_loop
  | Incr
  | Wait_test
  | Wait_check
  | Join
  | Final_check
  | Complete
  | Except exn
  | Finished "exn option"

text \<open>
  An item of the iterable given to \<^verbatim>\<open>upload\<close>: a part that \<^verbatim>\<open>upload_part\<close> can
  take (an object with a \<^verbatim>\<open>read\<close> method, or a \<^verbatim>\<open>str\<close>), or a \<^verbatim>\<open>bytes\<close> object. A
  \<^verbatim>\<open>bytes\<close> object has no \<^verbatim>\<open>read\<close> method, and \<^verbatim>\<open>StringIO\<close> refuses it with a
  \<^verbatim>\<open>TypeError\<close> on line 60, which is outside the \<^verbatim>\<open>try\<close>: \<^verbatim>\<open>upload_part\<close> raises
  before its loop. How a task of the pool ends: it returns the value of
  \<^verbatim>\<open>upload_part\<close> (with the backend calls made), or it raises.
\<close>

datatype item = Part part_data | Bytes string

datatype outcome = Returns "exn option" "part_event list" | Raises exn

text \<open>
  The state shared by the threads: \<^verbatim>\<open>upload.counter\<close>, \<^verbatim>\<open>err_queue\<close> (a FIFO queue
  without bound, oldest first), the numbered items not yet taken from the iterable, the
  tasks given to the pool that have not ended, whether the callback stands
  between its two lines, whether \<^verbatim>\<open>tpool\<close> is bound, the backend calls made by the
  main thread and those made by the tasks that are done. \<open>reported\<close> is a history
  variable and not a variable of the program: every error ever put on the queue.
\<close>

record state =
  pc :: pc
  counter :: int
  err_queue :: "exn list"
  todo :: "(nat \<times> item) list"
  running :: "(nat \<times> item) list"
  in_cb :: bool
  tpool :: bool
  log :: "call list"
  part_calls :: "part_event list"
  reported :: "exn list"

definition init :: "call list \<Rightarrow> item list \<Rightarrow> state" where
  "init calls_made iterable =
     \<lparr>pc = Mk_pool, counter = 0, err_queue = [], todo = numbered iterable, running = [],
      in_cb = False, tpool = False, log = calls_made, part_calls = [], reported = []\<rparr>"

text \<open>
  \<^verbatim>\<open>check_errors\<close> (lines 113-119): take the oldest error from the queue without
  blocking and raise it; with an empty queue go on at \<open>next\<close>.
\<close>

definition check_errors :: "pc \<Rightarrow> state \<Rightarrow> state" where
  "check_errors next s =
     (case err_queue s of
        [] \<Rightarrow> s\<lparr>pc := next\<rparr>
      | exc # rest \<Rightarrow> s\<lparr>err_queue := rest, pc := Except exc\<rparr>)"

text \<open>
  One step of the main thread. The pool refuses a size below one with a
  \<^verbatim>\<open>ValueError\<close>, raised inside the \<^verbatim>\<open>try\<close> before \<^verbatim>\<open>tpool\<close> is bound.
  \<^verbatim>\<open>join\<close> blocks (the state stays as it is) until every task and its callback are
  done. The handler calls \<^verbatim>\<open>cancel_upload\<close>, then \<^verbatim>\<open>tpool.terminate()\<close>, then
  re-raises: an exception of \<^verbatim>\<open>cancel_upload\<close>, or of reading an unbound \<^verbatim>\<open>tpool\<close>,
  leaves the handler in place of the one caught.
\<close>

definition main_step :: "env \<Rightarrow> int \<Rightarrow> state \<Rightarrow> state" where
  "main_step env threads s =
     (case pc s of
        Mk_pool \<Rightarrow>
          if threads < 1
          then s\<lparr>pc := Except (ValueError ''Number of processes must be at least 1'')\<rparr>
          else s\<lparr>tpool := True, pc := For_loop\<rparr>
      | For_loop \<Rightarrow>
          (case todo s of
             [] \<Rightarrow> (case iter_raises env of
                      None \<Rightarrow> s\<lparr>pc := Join\<rparr>
                    | Some e \<Rightarrow> s\<lparr>pc := Except e\<rparr>)
           | task # rest \<Rightarrow> s\<lparr>todo := rest, running := running s @ [task], pc := Incr\<rparr>)
      | Incr \<Rightarrow> s\<lparr>counter := counter s + 1, pc := Wait_test\<rparr>
      | Wait_test \<Rightarrow> if threads \<le> counter s then s\<lparr>pc := Wait_check\<rparr> else s\<lparr>pc := For_loop\<rparr>
      | Wait_check \<Rightarrow> check_errors Wait_test s
      | Join \<Rightarrow> if running s = [] \<and> \<not> in_cb s then s\<lparr>pc := Final_check\<rparr> else s
      | Final_check \<Rightarrow> check_errors Complete s
      | Complete \<Rightarrow>
          (case complete_raises env of
             None \<Rightarrow> s\<lparr>log := log s @ [Complete_upload], pc := Finished None\<rparr>
           | Some e \<Rightarrow> s\<lparr>log := log s @ [Complete_upload], pc := Except e\<rparr>)
      | Except e \<Rightarrow>
          (case cancel_raises env of
             Some e' \<Rightarrow> s\<lparr>log := log s @ [Cancel_upload], pc := Finished (Some e')\<rparr>
           | None \<Rightarrow>
               if tpool s then s\<lparr>log := log s @ [Cancel_upload], pc := Finished (Some e)\<rparr>
               else s\<lparr>log := log s @ [Cancel_upload],
                      pc := Finished (Some (UnboundLocalError ''tpool''))\<rparr>)
      | Finished r \<Rightarrow> s)"

text \<open>
  A task of the pool (line 134) runs \<^verbatim>\<open>upload_part\<close> on its item. When the task
  returns, its result goes to the callback \<^verbatim>\<open>cb\<close> (lines 126-128), which has two
  lines: put the error on the queue if there is one, then decrement the counter under
  the lock. When the task raises, the pool keeps the exception for a caller that never
  asks for it; \<^verbatim>\<open>apply_async\<close> was given no \<^verbatim>\<open>error_callback\<close>, so \<^verbatim>\<open>cb\<close> is not
  called: nothing is put on the queue and the counter is not decremented. A task shares
  nothing with the other threads but through its callback, so its run is taken as one
  step with the first line of the callback. The calls of the pool itself
  (\<^verbatim>\<open>apply_async\<close>, \<^verbatim>\<open>close\<close>, \<^verbatim>\<open>join\<close>, \<^verbatim>\<open>terminate\<close> on a bound pool) are taken
  not to raise.
\<close>

definition task_run :: "env \<Rightarrow> nat \<times> item \<Rightarrow> outcome" where
  "task_run env task =
     (case snd task of
        Part part_data \<Rightarrow>
          (case upload_part (upload_part_from_file env (fst task)) (worker env (fst task))
                  (fst task) part_data of
             (err, evs) \<Rightarrow> Returns err evs)
      | Bytes b \<Rightarrow> Raises (TypeError ''initial_value must be str or None, not bytes''))"

definition cb_put :: "exn option \<Rightarrow> state \<Rightarrow> state" where
  "cb_put err s =
     (case err of
        None \<Rightarrow> s
      | Some e \<Rightarrow> s\<lparr>err_queue := err_queue s @ [e], reported := reported s @ [e]\<rparr>)"

definition task_end :: "env \<Rightarrow> nat \<times> item \<Rightarrow> state \<Rightarrow> state" where
  "task_end env task s =
     (case task_run env task of
        Returns err evs \<Rightarrow>
          (cb_put err s)\<lparr>running := remove1 task (running s), in_cb := True,
                          part_calls := part_calls s @ evs\<rparr>
      | Raises e \<Rightarrow> s\<lparr>running := remove1 task (running s)\<rparr>)"

definition cb_decr :: "state \<Rightarrow> state" where
  "cb_decr s = s\<lparr>counter := counter s - 1, in_cb := False\<rparr>"

text \<open>
  The threads interleave. A schedule is a list of actions: \<open>Main\<close> is one step of the
  main thread; \<open>Cb_put n\<close> is the task of part \<open>n\<close> ending and, when it returned,
  the first line of its callback; \<open>Cb_decr\<close> is the second line of that callback. The pool runs its callbacks
  one at a time, in one thread. An action that cannot happen in a state (no such task,
  a callback in its way, a blocked \<^verbatim>\<open>join\<close>) leaves the state as it is, and so does
  every action once the call is over.
\<close>

datatype action = Main | Cb_put nat | Cb_decr

fun over :: "pc \<Rightarrow> bool" where
  "over (Finished r) = True"
| "over p = False"

definition step :: "env \<Rightarrow> int \<Rightarrow> action \<Rightarrow> state \<Rightarrow> state" where
  "step env threads a s =
     (if over (pc s) then s
      else case a of
             Main \<Rightarrow> main_step env threads s
           | Cb_put n \<Rightarrow>
               (case find (\<lambda>task. fst task = n) (running s) of
                  None \<Rightarrow> s
                | Some task \<Rightarrow>
                    if in_cb s then s
                    else task_end env task s)
           | Cb_decr \<Rightarrow> if in_cb s then cb_decr s else s)"

fun exec :: "env \<Rightarrow> int \<Rightarrow> action list \<Rightarrow> state \<Rightarrow> state" where
  "exec env threads [] s = s"
| "exec env threads (a # sched) s = exec env threads sched (step env threads a s)"

text \<open>
  \<^verbatim>\<open>upload\<close> (lines 75-148) under a schedule: the state reached. When the lines before
  the \<^verbatim>\<open>try\<close> raise, the call is over with that exception and nothing of the
  transaction has run.
\<close>

definition upload :: "env \<Rightarrow> item list \<Rightarrow> string \<Rightarrow> int \<Rightarrow> bool \<Rightarrow> action list \<Rightarrow> state" where
  "upload env iterable key threads replace sched =
     (case preflight env key replace of
        (calls_made, Some e) \<Rightarrow> (init calls_made iterable)\<lparr>pc := Finished (Some e)\<rparr>
      | (calls_made, None) \<Rightarrow> exec env threads sched (init calls_made iterable))"


section \<open>Predicates used to state and prove the properties\<close>

text \<open>
  \<open>exhausts env part_no\<close>: each of the five calls of the backend for the part raises.
  \<open>returns\<close>: \<^verbatim>\<open>upload_part\<close> gets past line 60 on the item. \<open>fails\<close>: the task
  makes its five calls and all of them raise. \<open>task_error\<close>: the error object the
  task returns, if it returns one. \<open>some_failed\<close>: the task of some part returns an
  error object.
\<close>

definition exhausts :: "env \<Rightarrow> nat \<Rightarrow> bool" where
  "exhausts env part_no = list_all (\<lambda>j. raises (upload_part_from_file env part_no j) \<noteq> None) [0..<5]"

fun returns :: "item \<Rightarrow> bool" where
  "returns (Part part_data) = True"
| "returns (Bytes b) = False"

definition fails :: "env \<Rightarrow> nat \<times> item \<Rightarrow> bool" where
  "fails env task = (returns (snd task) \<and> exhausts env (fst task))"

definition task_error :: "env \<Rightarrow> nat \<times> item \<Rightarrow> exn option" where
  "task_error env task = (case task_run env task of Returns err evs \<Rightarrow> err | Raises e \<Rightarrow> None)"

definition some_failed :: "env \<Rightarrow> (nat \<times> item) list \<Rightarrow> bool" where
  "some_failed env tasks = list_ex (\<lambda>task. task_error env task \<noteq> None) tasks"

text \<open>
  The invariant of the runs of the transaction, by the place of the main thread. Before
  an error is taken from the queue, the queue holds every error reported, and a task
  that is done and failed has its error there; the backend log is that of the lines
  before the \<^verbatim>\<open>try\<close>, followed by \<open>Complete_upload\<close> and \<open>Cancel_upload\<close> as the
  main thread has called them.
\<close>

definition ok_done :: "env \<Rightarrow> (nat \<times> item) list \<Rightarrow> state \<Rightarrow> bool" where
  "ok_done env tasks s =
     (\<forall>t \<in> set tasks. t \<notin> set (todo s) \<and> t \<notin> set (running s) \<longrightarrow> task_error env t = None)"

definition loop_inv :: "env \<Rightarrow> int \<Rightarrow> call list \<Rightarrow> (nat \<times> item) list \<Rightarrow> state \<Rightarrow> bool" where
  "loop_inv env threads lg tasks s =
     (log s = lg \<and> err_queue s = reported s \<and> 1 \<le> threads \<and> tpool s
      \<and> (err_queue s = [] \<longrightarrow> ok_done env tasks s))"

definition before_complete :: "env \<Rightarrow> int \<Rightarrow> (nat \<times> item) list \<Rightarrow> bool" where
  "before_complete env threads tasks =
     (threads < 1 \<or> iter_raises env \<noteq> None \<or> some_failed env tasks)"

definition at_complete :: "env \<Rightarrow> int \<Rightarrow> (nat \<times> item) list \<Rightarrow> state \<Rightarrow> bool" where
  "at_complete env threads tasks s =
     (1 \<le> threads \<and> tpool s \<and> iter_raises env = None \<and> \<not> some_failed env tasks
      \<and> todo s = [] \<and> running s = [] \<and> \<not> in_cb s \<and> err_queue s = [] \<and> reported s = [])"

fun pc_inv :: "env \<Rightarrow> int \<Rightarrow> call list \<Rightarrow> (nat \<times> item) list \<Rightarrow> state \<Rightarrow> pc \<Rightarrow> bool" where
  "pc_inv env threads lg tasks s Mk_pool =
     (log s = lg \<and> err_queue s = [] \<and> reported s = [] \<and> todo s = tasks \<and> running s = []
      \<and> \<not> in_cb s \<and> \<not> tpool s)"
| "pc_inv env threads lg tasks s For_loop = loop_inv env threads lg tasks s"
| "pc_inv env threads lg tasks s Incr = loop_inv env threads lg tasks s"
| "pc_inv env threads lg tasks s Wait_test = loop_inv env threads lg tasks s"
| "pc_inv env threads lg tasks s Wait_check = loop_inv env threads lg tasks s"
| "pc_inv env threads lg tasks s Join =
     (loop_inv env threads lg tasks s \<and> todo s = [] \<and> iter_raises env = None)"
| "pc_inv env threads lg tasks s Final_check =
     (loop_inv env threads lg tasks s \<and> todo s = [] \<and> iter_raises env = None
      \<and> running s = [] \<and> \<not> in_cb s)"
| "pc_inv env threads lg tasks s Complete = (log s = lg \<and> at_complete env threads tasks s)"
| "pc_inv env threads lg tasks s (Except e) =
     ((1 \<le> threads \<longrightarrow> tpool s) \<and>
      (log s = lg \<and> before_complete env threads tasks
       \<or> log s = lg @ [Complete_upload] \<and> complete_raises env = Some e
          \<and> at_complete env threads tasks s))"
| "pc_inv env threads lg tasks s (Finished None) =
     (log s = lg @ [Complete_upload] \<and> complete_raises env = None
      \<and> at_complete env threads tasks s)"
| "pc_inv env threads lg tasks s (Finished (Some e)) =
     (log s = lg @ [Cancel_upload] \<and> before_complete env threads tasks
      \<or> log s = lg @ [Complete_upload, Cancel_upload] \<and> at_complete env threads tasks s
         \<and> (\<exists>ce. complete_raises env = Some ce
                \<and> e = (case cancel_raises env of None \<Rightarrow> ce | Some e' \<Rightarrow> e')))"

definition inv :: "env \<Rightarrow> int \<Rightarrow> call list \<Rightarrow> (nat \<times> item) list \<Rightarrow> state \<Rightarrow> bool" where
  "inv env threads lg tasks s =
     (set (todo s) \<subseteq> set tasks \<and> set (running s) \<subseteq> set tasks
      \<and> (\<forall>e \<in> set (reported s). \<exists>t \<in> set tasks. task_error env t = Some e)
      \<and> tpool s = (1 \<le> threads \<and> pc s \<noteq> Mk_pool)
      \<and> (err_queue s = reported s \<or> reported s \<noteq> [] \<and> err_queue s = tl (reported s))
      \<and> pc_inv env threads lg tasks s (pc s))"


text \<open>
  The counter is at least the number of tasks given to the pool whose callback has not
  decremented yet, less one while the main thread stands between lines 134 and 135;
  it is that number when every task returns. \<open>left\<close> measures what the main thread
  has left to do.
\<close>

definition counter_inv :: "int \<Rightarrow> (nat \<times> item) list \<Rightarrow> state \<Rightarrow> bool" where
  "counter_inv threads tasks s =
     (int (length (running s)) + (if in_cb s then 1 else 0) - (if pc s = Incr then 1 else 0)
        \<le> counter s
      \<and> (list_all (\<lambda>task. returns (snd task)) tasks \<longrightarrow>
           counter s = int (length (running s)) + (if in_cb s then 1 else 0)
                         - (if pc s = Incr then 1 else 0))
      \<and> set (running s) \<subseteq> set tasks \<and> set (todo s) \<subseteq> set tasks
      \<and> (pc s = Mk_pool \<longrightarrow> running s = [] \<and> \<not> in_cb s \<and> counter s = 0)
      \<and> (1 \<le> threads \<longrightarrow> counter s \<le> threads
           \<and> (pc s = For_loop \<or> pc s = Incr \<longrightarrow> counter s < threads)))"

text \<open>
  The states of a run on one item that is a \<^verbatim>\<open>bytes\<close> object, with \<^verbatim>\<open>threads = 1\<close>.
\<close>

definition stuck :: "state \<Rightarrow> bool" where
  "stuck s =
     (err_queue s = [] \<and> \<not> in_cb s
      \<and> (case pc s of
            Mk_pool \<Rightarrow> todo s = [(1, Bytes ''abc'')] \<and> running s = [] \<and> counter s = 0
          | For_loop \<Rightarrow> todo s = [(1, Bytes ''abc'')] \<and> running s = [] \<and> counter s = 0
          | Incr \<Rightarrow> todo s = [] \<and> counter s = 0
                     \<and> (running s = [] \<or> running s = [(1, Bytes ''abc'')])
          | Wait_test \<Rightarrow> todo s = [] \<and> counter s = 1
                     \<and> (running s = [] \<or> running s = [(1, Bytes ''abc'')])
          | Wait_check \<Rightarrow> todo s = [] \<and> counter s = 1
                     \<and> (running s = [] \<or> running s = [(1, Bytes ''abc'')])
          | Join \<Rightarrow> False
          | Final_check \<Rightarrow> False
          | Complete \<Rightarrow> False
          | Except e \<Rightarrow> False
          | Finished r \<Rightarrow> False))"

fun rank :: "pc \<Rightarrow> nat" where
  "rank (Finished r) = 0"
| "rank (Except e) = 1"
| "rank Complete = 2"
| "rank Final_check = 3"
| "rank Join = 4"
| "rank For_loop = 5"
| "rank Wait_test = 6"
| "rank Wait_check = 7"
| "rank Incr = 8"
| "rank Mk_pool = 9"

definition left :: "state \<Rightarrow> nat" where
  "left s = 10 * length (todo s) + rank (pc s)"

text \<open>
  Examples: a backend on which every call succeeds and the key does not exist, a
  call of \<^verbatim>\<open>upload_part_from_file\<close> that raises, a backend on which every part
  fails, and one on which part 1 alone fails.
\<close>

definition quiet :: env where
  "quiet = \<lparr>connect_raises = None, get_bucket_raises = None, lookup_result = Inr False,
     initiate_raises = None,
     upload_part_from_file = (\<lambda>part_no i. \<lparr>leaves_at = 0, raises = None\<rparr>),
     worker = (\<lambda>part_no. if part_no = 1 then ''T1'' else ''T2''),
     iter_raises = None, complete_raises = None, cancel_raises = None\<rparr>"

definition failing :: "attempt" where
  "failing = \<lparr>leaves_at = 0, raises = Some ''Boom''\<rparr>"


definition broken :: env where
  "broken = quiet\<lparr>upload_part_from_file := (\<lambda>part_no i. failing)\<rparr>"

definition first_broken :: env where
  "first_broken = quiet\<lparr>upload_part_from_file :=
     (\<lambda>part_no i. if part_no = 1 then failing else \<lparr>leaves_at = 0, raises = None\<rparr>)\<rparr>"

section \<open>Properties of the chunker\<close>



lemma list_all_butlast: "list_all P xs \<Longrightarrow> list_all P (butlast xs)"
  by (induction xs) auto




lemma numbered_snd: "map snd (numbered ps) = ps"
  unfolding numbered_def by (simp add: enumerate_eq_zip o_def split_def)






section \<open>Properties of the part uploader\<close>


lemma calls_append: "calls (xs @ ys) = calls xs + calls ys"
  by (induction xs rule: calls.induct) auto

lemma rewound_append: "rewound xs \<Longrightarrow> rewound (xs @ ys) = rewound ys"
  by (induction xs rule: rewound.induct) auto

lemma retry_loop_trace:
  "rewound evs \<Longrightarrow>
     rewound (snd (retry_loop f t n r p evs)) \<and>
     calls (snd (retry_loop f t n r p evs)) \<le> calls evs + r"
proof (induction r arbitrary: p evs)
  case 0
  then show ?case by simp
next
  case (Suc r)
  have rw: "rewound (evs @ [Seek 0, Upload_func n 0])"
    using Suc.prems by (simp add: rewound_append)
  have ca: "calls (evs @ [Seek 0, Upload_func n 0]) = Suc (calls evs)"
    by (simp add: calls_append)
  show ?case
  proof (cases "raises (f (5 - Suc r))")
    case None
    then show ?thesis using rw ca by (simp add: Let_def)
  next
    case (Some exc)
    show ?thesis
    proof (cases "r = 0")
      case True
      then show ?thesis using Some rw ca by (simp add: Let_def)
    next
      case False
      from Suc.IH [OF rw, of "leaves_at (f (5 - Suc r))"] ca
      show ?thesis using Some False by (simp add: Let_def)
    qed
  qed
qed

lemma retry_loop_success:
  "r \<le> 5 \<Longrightarrow> 5 - r \<le> k \<Longrightarrow> k < 5 \<Longrightarrow>
   (\<forall>j. 5 - r \<le> j \<and> j < k \<longrightarrow> raises (f j) \<noteq> None) \<Longrightarrow> raises (f k) = None \<Longrightarrow>
   fst (retry_loop f t n r p evs) = None \<and>
   calls (snd (retry_loop f t n r p evs)) = calls evs + Suc (k - (5 - r))"
proof (induction r arbitrary: p evs)
  case 0
  then show ?case by simp
next
  case (Suc r)
  have ca: "calls (evs @ [Seek 0, Upload_func n 0]) = Suc (calls evs)"
    by (simp add: calls_append)
  show ?case
  proof (cases "k = 5 - Suc r")
    case True
    then show ?thesis using Suc.prems ca by (simp add: Let_def)
  next
    case False
    then have lt: "5 - Suc r < k" using Suc.prems by simp
    then obtain exc where exc: "raises (f (5 - Suc r)) = Some exc"
      using Suc.prems(4) by (cases "raises (f (5 - Suc r))") auto
    have r0: "r \<noteq> 0" using lt Suc.prems by simp
    have "fst (retry_loop f t n r (leaves_at (f (5 - Suc r))) (evs @ [Seek 0, Upload_func n 0])) = None
      \<and> calls (snd (retry_loop f t n r (leaves_at (f (5 - Suc r))) (evs @ [Seek 0, Upload_func n 0])))
         = calls (evs @ [Seek 0, Upload_func n 0]) + Suc (k - (5 - r))"
      using Suc.prems lt by (intro Suc.IH) auto
    moreover have "Suc (k - (5 - r)) = k - (5 - Suc r)" using lt Suc.prems by simp
    ultimately show ?thesis using exc r0 ca by (simp add: Let_def)
  qed
qed

lemma retry_loop_exhausted:
  "0 < r \<Longrightarrow> r \<le> 5 \<Longrightarrow> (\<forall>j. 5 - r \<le> j \<and> j < 4 \<longrightarrow> raises (f j) \<noteq> None) \<Longrightarrow>
   raises (f 4) = Some exc \<Longrightarrow>
   fst (retry_loop f t n r p evs) = Some (ThreadError (t @ '' '' @ exc)) \<and>
   calls (snd (retry_loop f t n r p evs)) = calls evs + r"
proof (induction r arbitrary: p evs)
  case 0
  then show ?case by simp
next
  case (Suc r)
  have ca: "calls (evs @ [Seek 0, Upload_func n 0]) = Suc (calls evs)"
    by (simp add: calls_append)
  show ?case
  proof (cases "r = 0")
    case True
    then show ?thesis using Suc.prems ca by (simp add: Let_def)
  next
    case False
    then have "5 - Suc r < 4" using Suc.prems by simp
    then obtain e where e: "raises (f (5 - Suc r)) = Some e"
      using Suc.prems(3) by (cases "raises (f (5 - Suc r))") auto
    have "fst (retry_loop f t n r (leaves_at (f (5 - Suc r))) (evs @ [Seek 0, Upload_func n 0]))
            = Some (ThreadError (t @ '' '' @ exc))
      \<and> calls (snd (retry_loop f t n r (leaves_at (f (5 - Suc r))) (evs @ [Seek 0, Upload_func n 0])))
         = calls (evs @ [Seek 0, Upload_func n 0]) + r"
      using Suc.prems False by (intro Suc.IH) auto
    then show ?thesis using e False ca by (simp add: Let_def)
  qed
qed


text \<open>
  C3. \<^verbatim>\<open>upload_part\<close> calls the backend at most 5 times, each call right after a
  \<^verbatim>\<open>seek(0)\<close> and on a buffer standing at position 0, wherever the buffer stood
  before and wherever the failed call left it; and when the first \<open>k < 5\<close> calls fail
  and the next one succeeds, it returns \<^verbatim>\<open>None\<close> (no error value) after \<open>k + 1\<close>
  calls.
\<close>

theorem upload_part_retries:
  "calls (snd (upload_part upload_func thread part_no part_data)) \<le> 5
   \<and> rewound (snd (upload_part upload_func thread part_no part_data))
   \<and> (\<forall>k<5. (\<forall>j<k. raises (upload_func j) \<noteq> None) \<and> raises (upload_func k) = None
         \<longrightarrow> fst (upload_part upload_func thread part_no part_data) = None
           \<and> calls (snd (upload_part upload_func thread part_no part_data)) = Suc k)"
proof -
  have "rewound []" by simp
  from retry_loop_trace [OF this]
  have a: "calls (snd (upload_part upload_func thread part_no part_data)) \<le> 5"
       "rewound (snd (upload_part upload_func thread part_no part_data))"
    unfolding upload_part_def by (metis calls.simps(1) add_0)+
  have b: "fst (upload_part upload_func thread part_no part_data) = None
           \<and> calls (snd (upload_part upload_func thread part_no part_data)) = Suc k"
    if "k < 5" "\<forall>j<k. raises (upload_func j) \<noteq> None" "raises (upload_func k) = None" for k
    unfolding upload_part_def
    using retry_loop_success [of 5 k upload_func thread part_no _ "[]"] that by simp
  show ?thesis using a b by blast
qed

theorem upload_part_retries_witness:
  "fst (upload_part (\<lambda>i. \<lparr>leaves_at = 3, raises = (if i < 2 then Some ''Boom'' else None)\<rparr>)
          ''T1'' 7 (BytesIO ''abc'' 3)) = None
   \<and> calls (snd (upload_part (\<lambda>i. \<lparr>leaves_at = 3, raises = (if i < 2 then Some ''Boom'' else None)\<rparr>)
          ''T1'' 7 (BytesIO ''abc'' 3))) = 3"
proof -
  let ?f = "\<lambda>i::nat. \<lparr>leaves_at = 3, raises = (if i < 2 then Some ''Boom'' else None)\<rparr>"
  have h: "(2::nat) < 5 \<and> (\<forall>j<2. raises (?f j) \<noteq> None) \<and> raises (?f 2) = None"
    by simp
  from upload_part_retries [of ?f "''T1''" 7 "BytesIO ''abc'' 3"] h
  have "fst (upload_part ?f ''T1'' 7 (BytesIO ''abc'' 3)) = None
     \<and> calls (snd (upload_part ?f ''T1'' 7 (BytesIO ''abc'' 3))) = Suc 2"
    by blast
  then show ?thesis by simp
qed

text \<open>
  C6, as the code has it. When all 5 calls fail, \<^verbatim>\<open>upload_part\<close> returns (it does not
  raise) the error object \<^verbatim>\<open>ThreadError(repr(thread) + ' ' + repr(exc))\<close>, where
  \<open>exc\<close> is the exception of the fifth and last call: the value names the worker thread
  and the last backend error. The part number is not in it.
\<close>

theorem upload_part_exhausted:
  assumes "\<forall>j<5. raises (upload_func j) \<noteq> None" and "raises (upload_func 4) = Some exc"
  shows "fst (upload_part upload_func thread part_no part_data)
           = Some (ThreadError (thread @ '' '' @ exc))
       \<and> calls (snd (upload_part upload_func thread part_no part_data)) = 5"
  unfolding upload_part_def
  using retry_loop_exhausted [of 5 upload_func exc thread part_no _ "[]"] assms by simp

theorem upload_part_exhausted_witness:
  "fst (upload_part (\<lambda>i. \<lparr>leaves_at = 3, raises = Some (if i = 4 then ''Last'' else ''Boom'')\<rparr>)
          ''T1'' 7 (BytesIO ''abc'' 3)) = Some (ThreadError ''T1 Last'')"
proof -
  let ?f = "\<lambda>i::nat. \<lparr>leaves_at = 3, raises = Some (if i = 4 then ''Last'' else ''Boom'')\<rparr>"
  have h: "\<forall>j<5. raises (?f j) \<noteq> None" "raises (?f 4) = Some ''Last''"
    by simp_all
  from upload_part_exhausted [of ?f "''Last''" "''T1''" 7 "BytesIO ''abc'' 3", OF h]
  show ?thesis by simp
qed

text \<open>
  C6 as stated fails on the part number: with a backend that raises the same exception
  for every part, the error value returned for part 1 is the error value returned for
  part 2, so the value does not carry the part number.
\<close>

theorem upload_part_part_number_counterexample:
  "fst (upload_part (\<lambda>i. \<lparr>leaves_at = 0, raises = Some ''Boom''\<rparr>) ''T1'' 1 (Str ''x''))
     = Some (ThreadError ''T1 Boom'')
   \<and> fst (upload_part (\<lambda>i. \<lparr>leaves_at = 0, raises = Some ''Boom''\<rparr>) ''T1'' 2 (Str ''x''))
     = Some (ThreadError ''T1 Boom'')"
  by (simp add: upload_part_def numeral_eq_Suc)

section \<open>Properties of the coordinator and the transaction\<close>

lemma inv_init: "inv env threads lg (numbered ps) (init lg ps)"
  by (simp add: inv_def init_def)

lemma some_failed_iff: "some_failed env tasks \<longleftrightarrow> (\<exists>t \<in> set tasks. task_error env t \<noteq> None)"
  by (simp add: some_failed_def list_ex_iff)

lemma inv_main:
  assumes "inv env threads lg tasks s"
  shows "inv env threads lg tasks (main_step env threads s)"
proof (cases "pc s")
  case Mk_pool
  then show ?thesis using assms
    by (auto simp: inv_def main_step_def loop_inv_def ok_done_def before_complete_def)
next
  case For_loop
  then show ?thesis using assms
    by (auto simp: inv_def main_step_def loop_inv_def ok_done_def before_complete_def
             split: list.splits option.splits)
next
  case Incr
  then show ?thesis using assms
    by (auto simp: inv_def main_step_def loop_inv_def ok_done_def)
next
  case Wait_test
  then show ?thesis using assms
    by (auto simp: inv_def main_step_def loop_inv_def ok_done_def)
next
  case Wait_check
  then show ?thesis using assms
    by (auto simp: inv_def main_step_def check_errors_def loop_inv_def ok_done_def
                   before_complete_def some_failed_iff
             split: list.splits)
next
  case Join
  then show ?thesis using assms
    by (auto simp: inv_def main_step_def loop_inv_def ok_done_def)
next
  case Final_check
  then show ?thesis using assms
    by (auto simp: inv_def main_step_def check_errors_def loop_inv_def ok_done_def
                   before_complete_def at_complete_def some_failed_iff
             split: list.splits) blast
next
  case Complete
  then show ?thesis using assms
    by (auto simp: inv_def main_step_def at_complete_def split: option.splits)
next
  case (Except e)
  then show ?thesis using assms
    by (auto simp: inv_def main_step_def at_complete_def before_complete_def split: option.splits)
next
  case (Finished r)
  then show ?thesis using assms
    by (auto simp: inv_def main_step_def)
qed

lemma find_in: "find P xs = Some x \<Longrightarrow> x \<in> set xs \<and> P x"
  by (induction xs) (auto split: if_splits)

lemma inv_cb_put:
  assumes "inv env threads lg tasks s" and "\<not> over (pc s)" and "task \<in> set (running s)"
    and "task_error env task = err"
  shows "inv env threads lg tasks
           ((cb_put err s)\<lparr>running := remove1 task (running s), in_cb := b, part_calls := x\<rparr>)"
proof -
  have sub: "set (remove1 task (running s)) \<subseteq> set (running s)" by (rule set_remove1_subset)
  have mem: "task \<in> set tasks" using assms by (auto simp: inv_def)
  have other: "t = task \<or> t \<in> set (running s)" if "t \<notin> set (remove1 task (running s))" "t \<in> set (running s) \<or> t = task" for t
    using that by auto
  show ?thesis
  proof (cases "pc s")
    case (Finished r)
    then show ?thesis using assms by simp
  next
    case (Except e)
    then show ?thesis using assms sub mem
      by (auto simp: inv_def cb_put_def at_complete_def split: option.splits)
  next
    case Complete
    then show ?thesis using assms sub mem
      by (auto simp: inv_def cb_put_def at_complete_def split: option.splits)
  next
    case Mk_pool
    then show ?thesis using assms sub mem
      by (auto simp: inv_def cb_put_def split: option.splits)
  next
    case Final_check
    then show ?thesis using assms sub mem
      by (auto simp: inv_def cb_put_def split: option.splits)
  next
    case For_loop
    then show ?thesis using assms sub mem
      by (auto simp: inv_def cb_put_def loop_inv_def ok_done_def split: option.splits)
         (metis in_set_remove1)+
  next
    case Incr
    then show ?thesis using assms sub mem
      by (auto simp: inv_def cb_put_def loop_inv_def ok_done_def split: option.splits)
         (metis in_set_remove1)+
  next
    case Wait_test
    then show ?thesis using assms sub mem
      by (auto simp: inv_def cb_put_def loop_inv_def ok_done_def split: option.splits)
         (metis in_set_remove1)+
  next
    case Wait_check
    then show ?thesis using assms sub mem
      by (auto simp: inv_def cb_put_def loop_inv_def ok_done_def split: option.splits)
         (metis in_set_remove1)+
  next
    case Join
    then show ?thesis using assms sub mem
      by (auto simp: inv_def cb_put_def loop_inv_def ok_done_def split: option.splits)
         (metis in_set_remove1)+
  qed
qed

lemma inv_task_end:
  assumes "inv env threads lg tasks s" and "\<not> over (pc s)" and "task \<in> set (running s)"
  shows "inv env threads lg tasks (task_end env task s)"
proof (cases "task_run env task")
  case (Returns err evs)
  then have "task_error env task = err" by (simp add: task_error_def)
  from inv_cb_put [OF assms this, where b = True and x = "part_calls s @ evs"] Returns
  show ?thesis by (simp add: task_end_def)
next
  case (Raises e)
  then have "task_error env task = None" by (simp add: task_error_def)
  from inv_cb_put [OF assms this, where b = "in_cb s" and x = "part_calls s"] Raises
  show ?thesis by (simp add: task_end_def cb_put_def)
qed

lemma inv_cb_decr:
  assumes "inv env threads lg tasks s" and "in_cb s"
  shows "inv env threads lg tasks (cb_decr s)"
proof (cases "pc s")
  case (Finished r)
  then show ?thesis using assms
    by (cases r) (auto simp: inv_def cb_decr_def at_complete_def)
qed (insert assms, auto simp: inv_def cb_decr_def loop_inv_def ok_done_def at_complete_def)

lemma inv_step:
  assumes "inv env threads lg tasks s"
  shows "inv env threads lg tasks (step env threads a s)"
proof (cases "over (pc s)")
  case True
  then show ?thesis using assms by (simp add: step_def)
next
  case False
  show ?thesis
  proof (cases a)
    case Main
    then show ?thesis using False assms by (simp add: step_def inv_main)
  next
    case (Cb_put n)
    then show ?thesis using False assms
      by (auto simp: step_def split: option.splits dest!: find_in intro!: inv_task_end)
  next
    case Cb_decr
    then show ?thesis using False assms by (simp add: step_def inv_cb_decr)
  qed
qed

lemma inv_exec:
  "inv env threads lg tasks s \<Longrightarrow> inv env threads lg tasks (exec env threads sched s)"
  by (induction sched arbitrary: s) (simp_all add: inv_step)

lemma exec_append: "exec env th (xs @ ys) s = exec env th ys (exec env th xs s)"
  by (induction xs arbitrary: s) simp_all

lemma preflight_log:
  "Complete_upload \<notin> set (fst (preflight env key replace))
   \<and> Cancel_upload \<notin> set (fst (preflight env key replace))"
  by (simp add: preflight_def initiate_def split: option.splits sum.splits)

lemma upload_exec:
  "snd (preflight env key replace) = None \<Longrightarrow>
   upload env iterable key threads replace sched
     = exec env threads sched (init (fst (preflight env key replace)) iterable)"
  by (cases "preflight env key replace") (simp add: upload_def)

lemma upload_inv:
  "snd (preflight env key replace) = None \<Longrightarrow>
   inv env threads (fst (preflight env key replace)) (numbered iterable)
     (upload env iterable key threads replace sched)"
  by (simp add: upload_exec inv_exec inv_init)

lemma exhausts_iff: "exhausts env n \<longleftrightarrow> (\<forall>j<5. raises (upload_part_from_file env n j) \<noteq> None)"
  by (auto simp: exhausts_def list_all_iff)

lemma upload_part_fails_iff:
  "fst (upload_part (upload_part_from_file env n) w n p) \<noteq> None \<longleftrightarrow> exhausts env n"
proof
  assume ex: "exhausts env n"
  then have "raises (upload_part_from_file env n 4) \<noteq> None"
    by (simp add: exhausts_iff)
  then obtain exc where "raises (upload_part_from_file env n 4) = Some exc"
    by blast
  with ex show "fst (upload_part (upload_part_from_file env n) w n p) \<noteq> None"
    using retry_loop_exhausted [of 5 "upload_part_from_file env n" exc w n _ "[]"]
    by (simp add: upload_part_def exhausts_iff)
next
  assume f: "fst (upload_part (upload_part_from_file env n) w n p) \<noteq> None"
  show "exhausts env n"
  proof (rule ccontr)
    assume "\<not> exhausts env n"
    then have "\<exists>k. k < 5 \<and> raises (upload_part_from_file env n k) = None"
      by (auto simp: exhausts_iff)
    then obtain k where k: "k < 5" "raises (upload_part_from_file env n k) = None"
        "\<forall>j<k. \<not> (j < 5 \<and> raises (upload_part_from_file env n j) = None)"
      using exists_least_iff [of "\<lambda>k. k < 5 \<and> raises (upload_part_from_file env n k) = None"]
      by auto
    then have "\<forall>j. 5 - 5 \<le> j \<and> j < k \<longrightarrow> raises (upload_part_from_file env n j) \<noteq> None"
      by auto
    from retry_loop_success [OF _ _ k(1) this k(2), of w n _ "[]"]
    have "fst (upload_part (upload_part_from_file env n) w n p) = None"
      by (simp add: upload_part_def)
    with f show False by simp
  qed
qed

lemma task_error_iff: "task_error env task \<noteq> None \<longleftrightarrow> fails env task"
proof (cases "snd task")
  case (Part p)
  then show ?thesis
    using upload_part_fails_iff [of env "fst task" "worker env (fst task)" p]
    by (simp add: task_error_def task_run_def fails_def split_def)
next
  case (Bytes b)
  then show ?thesis by (simp add: task_error_def task_run_def fails_def)
qed

lemma some_failed_fails: "some_failed env tasks \<longleftrightarrow> list_ex (fails env) tasks"
  by (simp only: some_failed_def task_error_iff)


lemma count_free: "x \<notin> set xs \<Longrightarrow> count_list (xs @ ys) x = count_list ys x"
  by (induction xs) auto

lemma outcome:
  fixes env :: env and iterable :: "item list" and key :: string and threads :: int
    and replace :: bool and sched :: "action list"
  assumes pre: "snd (preflight env key replace) = None"
  defines "s \<equiv> upload env iterable key threads replace sched"
  defines "lg \<equiv> fst (preflight env key replace)"
  defines "bad \<equiv> threads < 1 \<or> iter_raises env \<noteq> None \<or> list_ex (fails env) (numbered iterable)"
  shows "(\<not> over (pc s) \<and> (\<forall>e. pc s \<noteq> Except e) \<longrightarrow> log s = lg)
       \<and> (\<forall>e. pc s = Except e \<longrightarrow> (log s = lg \<and> bad
                \<or> log s = lg @ [Complete_upload] \<and> complete_raises env = Some e \<and> \<not> bad \<and> reported s = []))
       \<and> (pc s = Finished None \<longrightarrow> log s = lg @ [Complete_upload] \<and> complete_raises env = None \<and> \<not> bad \<and> reported s = [])
       \<and> (\<forall>e. pc s = Finished (Some e) \<longrightarrow> (log s = lg @ [Cancel_upload] \<and> bad
                \<or> log s = lg @ [Complete_upload, Cancel_upload] \<and> \<not> bad \<and> reported s = []
                  \<and> (\<exists>ce. complete_raises env = Some ce
                        \<and> e = (case cancel_raises env of None \<Rightarrow> ce | Some e' \<Rightarrow> e'))))
       \<and> (pc s = Complete \<longrightarrow> \<not> bad \<and> reported s = [])"
proof -
  have i: "inv env threads lg (numbered iterable) s"
    unfolding s_def lg_def by (rule upload_inv [OF pre])
  have b: "before_complete env threads (numbered iterable) = bad"
    by (simp add: before_complete_def bad_def some_failed_fails)
  have a: "at_complete env threads (numbered iterable) s \<Longrightarrow> \<not> bad \<and> reported s = []"
    by (auto simp: at_complete_def bad_def some_failed_fails)
  show ?thesis
  proof (cases "pc s")
    case (Finished r)
    then show ?thesis using i a b by (cases r) (auto simp: inv_def)
  next
    case (Except e)
    then show ?thesis using i a b by (auto simp: inv_def)
  qed (insert i a b, auto simp: inv_def loop_inv_def)
qed

lemmas run_simps = upload_def preflight_def initiate_def init_def numbered_def step_def
  main_step_def check_errors_def cb_put_def cb_decr_def task_run_def upload_part_def
  task_end_def task_error_def fails_def quiet_def failing_def broken_def first_broken_def
  exhausts_def numeral_eq_Suc

lemma all_not_ex: "list_all (\<lambda>n. \<not> P n) xs \<longleftrightarrow> \<not> list_ex P xs"
  by (simp add: list_all_iff list_ex_iff)

lemma over_exec: "over (pc s) \<Longrightarrow> exec env th rest s = s"
  by (induction rest) (simp_all add: step_def)

lemma from_except:
  "pc s = Except e \<Longrightarrow>
     (pc (exec env th rest s) = Except e \<and> log (exec env th rest s) = log s
        \<and> tpool (exec env th rest s) = tpool s \<and> Main \<notin> set rest)
   \<or> (pc (exec env th rest s) = Finished (Some (case cancel_raises env of
            Some e' \<Rightarrow> e' | None \<Rightarrow> if tpool s then e else UnboundLocalError ''tpool''))
        \<and> log (exec env th rest s) = log s @ [Cancel_upload] \<and> Main \<in> set rest)"
proof (induction rest arbitrary: s)
  case Nil
  then show ?case by simp
next
  case (Cons a rest)
  show ?case
  proof (cases a)
    case Main
    then show ?thesis using Cons.prems
      by (simp add: step_def main_step_def over_exec split: option.splits)
  next
    case (Cb_put n)
    have st: "pc (step env th a s) = Except e" "log (step env th a s) = log s"
        "tpool (step env th a s) = tpool s"
      using Cb_put Cons.prems
      by (simp_all add: step_def task_end_def cb_put_def split: option.splits outcome.splits)
    from Cons.IH [OF st(1)] show ?thesis unfolding st(2,3) using Cb_put by simp
  next
    case Cb_decr
    have st: "pc (step env th a s) = Except e" "log (step env th a s) = log s"
        "tpool (step env th a s) = tpool s"
      using Cb_decr Cons.prems by (simp_all add: step_def cb_decr_def)
    from Cons.IH [OF st(1)] show ?thesis unfolding st(2,3) using Cb_decr by simp
  qed
qed

text \<open>
  C5. A call with \<^verbatim>\<open>replace\<close> false for a key that \<^verbatim>\<open>b.lookup\<close> finds raises
  \<^verbatim>\<open>Exception('s3 key ' + key + ' already exists')\<close> before the multipart upload is
  started, whatever the schedule: the only backend calls are the connection, the bucket
  and the lookup; there is no initiate, no complete, no cancel, and no part is uploaded.
\<close>

theorem upload_existing_key:
  assumes "\<not> replace" and "connect_raises env = None" and "get_bucket_raises env = None"
    and "lookup_result env = Inr True"
  shows "pc (upload env iterable key threads replace sched)
           = Finished (Some (Exception (''s3 key '' @ key @ '' already exists'')))
       \<and> log (upload env iterable key threads replace sched) = [S3Connection, Get_bucket, Lookup key]
       \<and> part_calls (upload env iterable key threads replace sched) = []"
  using assms by (simp add: upload_def preflight_def init_def)

theorem upload_existing_key_witness:
  "pc (upload (quiet\<lparr>lookup_result := Inr True\<rparr>) [Part (Str ''a'')] ''k'' 5 False [Main, Main, Cb_put 1])
       = Finished (Some (Exception ''s3 key k already exists''))
   \<and> log (upload (quiet\<lparr>lookup_result := Inr True\<rparr>) [Part (Str ''a'')] ''k'' 5 False [Main, Main, Cb_put 1])
       = [S3Connection, Get_bucket, Lookup ''k'']"
  using upload_existing_key [of False "quiet\<lparr>lookup_result := Inr True\<rparr>" "[Part (Str ''a'')]" "''k''" 5
          "[Main, Main, Cb_put 1]"]
  by (simp add: quiet_def)




lemma upload_append:
  "snd (preflight env key replace) = None \<Longrightarrow>
   upload env iterable key threads replace (sched @ rest)
     = exec env threads rest (upload env iterable key threads replace sched)"
  by (simp add: upload_exec exec_append)

lemma counter_inv_init: "counter_inv threads (numbered ps) (init lg ps)"
  by (simp add: counter_inv_def init_def)

lemma length_remove1_in: "x \<in> set xs \<Longrightarrow> int (length (remove1 x xs)) = int (length xs) - 1"
  by (induction xs) auto

lemma counter_inv_task_end:
  assumes "counter_inv threads tasks s" and "task \<in> set (running s)" and "\<not> in_cb s"
  shows "counter_inv threads tasks (task_end env task s)"
proof -
  have len: "int (length (remove1 task (running s))) = int (length (running s)) - 1"
    using assms(2) by (rule length_remove1_in)
  have sub: "set (remove1 task (running s)) \<subseteq> set tasks"
    using assms(1) set_remove1_subset [of task "running s"] by (auto simp: counter_inv_def)
  show ?thesis
  proof (cases "task_run env task")
    case (Returns err evs)
    then show ?thesis using assms len sub
      by (cases err) (auto simp: task_end_def cb_put_def counter_inv_def)
  next
    case (Raises e)
    then have "\<not> returns (snd task)"
      by (cases "snd task") (simp_all add: task_run_def split_def)
    moreover have "task \<in> set tasks" using assms(1,2) by (auto simp: counter_inv_def)
    ultimately have "\<not> list_all (\<lambda>task. returns (snd task)) tasks"
      by (auto simp: list_all_iff)
    then show ?thesis using Raises assms len sub
      by (auto simp: task_end_def counter_inv_def)
  qed
qed

lemma counter_inv_step:
  assumes "counter_inv threads tasks s"
  shows "counter_inv threads tasks (step env threads a s)"
proof (cases "over (pc s)")
  case True
  then show ?thesis using assms by (simp add: step_def)
next
  case False
  show ?thesis
  proof (cases a)
    case Main
    show ?thesis
    proof (cases "pc s")
      case (Finished r)
      then show ?thesis using False by simp
    next
      case Wait_check
      then show ?thesis using assms Main
        by (auto simp: step_def main_step_def check_errors_def counter_inv_def split: list.splits)
    next
      case Final_check
      then show ?thesis using assms Main
        by (auto simp: step_def main_step_def check_errors_def counter_inv_def split: list.splits)
    next
      case For_loop
      then show ?thesis using assms Main
        by (auto simp: step_def main_step_def counter_inv_def split: list.splits option.splits)
    next
      case Complete
      then show ?thesis using assms Main
        by (auto simp: step_def main_step_def counter_inv_def split: option.splits)
    next
      case (Except e)
      then show ?thesis using assms Main
        by (auto simp: step_def main_step_def counter_inv_def split: option.splits)
    next
      case Mk_pool
      then show ?thesis using assms Main
        by (auto simp: step_def main_step_def counter_inv_def)
    next
      case Incr
      then show ?thesis using assms Main
        by (auto simp: step_def main_step_def counter_inv_def)
    next
      case Wait_test
      then show ?thesis using assms Main
        by (auto simp: step_def main_step_def counter_inv_def)
    next
      case Join
      then show ?thesis using assms Main
        by (auto simp: step_def main_step_def counter_inv_def)
    qed
  next
    case (Cb_put n)
    show ?thesis
    proof (cases "find (\<lambda>task. fst task = n) (running s)")
      case None
      then show ?thesis using assms False Cb_put by (simp add: step_def)
    next
      case (Some task)
      then have mem: "task \<in> set (running s)" by (simp add: find_in)
      show ?thesis
      proof (cases "in_cb s")
        case True
        then show ?thesis using assms False Cb_put Some by (simp add: step_def)
      next
        case no: False
        from counter_inv_task_end [OF assms mem no, of env]
        show ?thesis using False Cb_put Some no by (simp add: step_def)
      qed
    qed
  next
    case Cb_decr
    show ?thesis
    proof (cases "in_cb s")
      case True
      then show ?thesis using assms False Cb_decr
        by (auto simp: step_def cb_decr_def counter_inv_def)
    next
      case no: False
      then show ?thesis using assms False Cb_decr by (simp add: step_def)
    qed
  qed
qed

lemma counter_inv_exec:
  "counter_inv threads tasks s \<Longrightarrow> counter_inv threads tasks (exec env threads sched s)"
  by (induction sched arbitrary: s) (simp_all add: counter_inv_step)

lemma counter_bounds:
  assumes "snd (preflight env key replace) = None"
  shows "- 1 \<le> counter (upload env iterable key threads replace sched)
       \<and> (1 \<le> threads \<longrightarrow> counter (upload env iterable key threads replace sched) \<le> threads)"
proof -
  have "counter_inv threads (numbered iterable) (upload env iterable key threads replace sched)"
    by (simp add: upload_exec [OF assms] counter_inv_exec counter_inv_init)
  then show ?thesis by (auto simp: counter_inv_def split: if_splits)
qed

lemma flush:
  "\<not> over (pc s) \<Longrightarrow>
   \<exists>cbs. running (exec env th cbs s) = [] \<and> \<not> in_cb (exec env th cbs s)
       \<and> pc (exec env th cbs s) = pc s \<and> todo (exec env th cbs s) = todo s"
proof (induction "length (running s)" arbitrary: s)
  case 0
  show ?case
  proof (cases "in_cb s")
    case True
    have "running (exec env th [Cb_decr] s) = [] \<and> \<not> in_cb (exec env th [Cb_decr] s)
       \<and> pc (exec env th [Cb_decr] s) = pc s \<and> todo (exec env th [Cb_decr] s) = todo s"
      using 0 True by (simp add: step_def cb_decr_def)
    then show ?thesis by blast
  next
    case False
    have "running (exec env th [] s) = [] \<and> \<not> in_cb (exec env th [] s)
       \<and> pc (exec env th [] s) = pc s \<and> todo (exec env th [] s) = todo s"
      using 0 False by simp
    then show ?thesis by blast
  qed
next
  case (Suc k)
  then obtain t ts where r: "running s = t # ts" by (cases "running s") auto
  let ?pre = "if in_cb s then [Cb_decr, Cb_put (fst t)] else [Cb_put (fst t)]"
  let ?s1 = "exec env th ?pre s"
  have s1: "running ?s1 = ts" "pc ?s1 = pc s" "todo ?s1 = todo s"
    using r Suc.prems
    by (auto simp: step_def cb_decr_def task_end_def cb_put_def split: option.splits outcome.splits)
  have "k = length (running ?s1)" using Suc.hyps(2) r s1 by simp
  moreover have "\<not> over (pc ?s1)" using s1 Suc.prems by simp
  ultimately obtain cbs where c: "running (exec env th cbs ?s1) = []" "\<not> in_cb (exec env th cbs ?s1)"
      "pc (exec env th cbs ?s1) = pc ?s1" "todo (exec env th cbs ?s1) = todo ?s1"
    using Suc.hyps(1) by blast
  have "exec env th (?pre @ cbs) s = exec env th cbs ?s1" by (rule exec_append)
  then have "running (exec env th (?pre @ cbs) s) = [] \<and> \<not> in_cb (exec env th (?pre @ cbs) s)
       \<and> pc (exec env th (?pre @ cbs) s) = pc s \<and> todo (exec env th (?pre @ cbs) s) = todo s"
    using c s1 by simp
  then show ?case by blast
qed

lemma main_progress:
  assumes "inv env th lg tasks s" and "counter_inv th tasks s" and "\<not> over (pc s)"
    and "running s = []" and "\<not> in_cb s" and "list_all (\<lambda>task. returns (snd task)) tasks"
  shows "left (step env th Main s) < left s"
proof (cases "pc s")
  case (Finished r)
  then show ?thesis using assms by simp
next
  case Wait_check
  then show ?thesis using assms
    by (auto simp: step_def main_step_def check_errors_def left_def split: list.splits)
next
  case Final_check
  then show ?thesis using assms
    by (auto simp: step_def main_step_def check_errors_def left_def split: list.splits)
next
  case For_loop
  then show ?thesis using assms
    by (auto simp: step_def main_step_def left_def split: list.splits option.splits)
next
  case Complete
  then show ?thesis using assms
    by (auto simp: step_def main_step_def left_def split: option.splits)
next
  case (Except e)
  then show ?thesis using assms
    by (auto simp: step_def main_step_def left_def split: option.splits)
next
  case Mk_pool
  then show ?thesis using assms by (auto simp: step_def main_step_def left_def)
next
  case Incr
  then show ?thesis using assms by (auto simp: step_def main_step_def left_def)
next
  case Wait_test
  then show ?thesis using assms
    by (auto simp: step_def main_step_def left_def inv_def loop_inv_def counter_inv_def)
next
  case Join
  then show ?thesis using assms by (auto simp: step_def main_step_def left_def)
qed

lemma can_finish:
  "inv env th lg tasks s \<Longrightarrow> counter_inv th tasks s \<Longrightarrow>
   list_all (\<lambda>task. returns (snd task)) tasks \<Longrightarrow> \<exists>fin. over (pc (exec env th fin s))"
proof (induction "left s" arbitrary: s rule: less_induct)
  case less
  show ?case
  proof (cases "over (pc s)")
    case True
    then have "over (pc (exec env th [] s))" by simp
    then show ?thesis by blast
  next
    case False
    from flush [OF False, of env th]
    obtain cbs where c: "running (exec env th cbs s) = []" "\<not> in_cb (exec env th cbs s)"
      "pc (exec env th cbs s) = pc s" "todo (exec env th cbs s) = todo s" by blast
    let ?s1 = "exec env th cbs s"
    have i1: "inv env th lg tasks ?s1" "counter_inv th tasks ?s1"
      using less.prems by (simp_all add: inv_exec counter_inv_exec)
    have "\<not> over (pc ?s1)" using c False by simp
    from main_progress [OF i1 this c(1,2) less.prems(3)]
    have lt: "left (step env th Main ?s1) < left s" using c by (simp add: left_def)
    have i2: "inv env th lg tasks (step env th Main ?s1)"
             "counter_inv th tasks (step env th Main ?s1)"
      using i1 by (simp_all add: inv_step counter_inv_step)
    from less.hyps [OF lt i2 less.prems(3)]
    obtain fin where "over (pc (exec env th fin (step env th Main ?s1)))"
      by blast
    moreover have "exec env th (cbs @ Main # fin) s = exec env th fin (step env th Main ?s1)"
      by (simp add: exec_append)
    ultimately have "over (pc (exec env th (cbs @ Main # fin) s))" by simp
    then show ?thesis by blast
  qed
qed

lemma returns_numbered:
  "list_all returns iterable \<Longrightarrow> list_all (\<lambda>task. returns (snd task)) (numbered iterable)"
proof -
  assume "list_all returns iterable"
  then have "list_all returns (map snd (numbered iterable))" by (simp only: numbered_snd)
  then show ?thesis by (simp add: list_all_iff)
qed

lemma upload_can_finish:
  assumes "list_all returns iterable \<or> snd (preflight env key replace) \<noteq> None"
  shows "\<exists>fin. over (pc (upload env iterable key threads replace (sched @ fin)))"
proof (cases "snd (preflight env key replace)")
  case None
  let ?lg = "fst (preflight env key replace)"
  have "inv env threads ?lg (numbered iterable) (upload env iterable key threads replace sched)"
    by (rule upload_inv [OF None])
  moreover have "counter_inv threads (numbered iterable)
                   (upload env iterable key threads replace sched)"
    by (simp add: upload_exec [OF None] counter_inv_exec counter_inv_init)
  moreover have "list_all (\<lambda>task. returns (snd task)) (numbered iterable)"
    using assms None by (simp add: returns_numbered)
  ultimately obtain fin where
    "over (pc (exec env threads fin (upload env iterable key threads replace sched)))"
    using can_finish by blast
  then show ?thesis using upload_append [OF None] by metis
next
  case (Some e)
  then show ?thesis by (cases "preflight env key replace") (simp add: upload_def)
qed

text \<open>
  A task that raises leaves the counter where it is. With \<^verbatim>\<open>threads = 1\<close> and one
  item that is a \<^verbatim>\<open>bytes\<close> object, the call never ends, whatever the schedule: the main
  thread turns in the loop of \<^verbatim>\<open>waiter\<close> with the counter at 1 and an empty queue.
\<close>

lemma bytes_task_raises:
  "task_end env (n, Bytes b) s = s\<lparr>running := remove1 (n, Bytes b) (running s)\<rparr>"
  by (simp add: task_end_def task_run_def)

lemma bytes_item_stuck:
  assumes "stuck s"
  shows "stuck (step env 1 a s)"
proof (cases a)
  case Main
  show ?thesis
  proof (cases "pc s")
    case Mk_pool
    then show ?thesis using assms Main by (simp add: stuck_def step_def main_step_def)
  next
    case For_loop
    then show ?thesis using assms Main by (simp add: stuck_def step_def main_step_def)
  next
    case Incr
    then show ?thesis using assms Main by (simp add: stuck_def step_def main_step_def)
  next
    case Wait_test
    then show ?thesis using assms Main by (simp add: stuck_def step_def main_step_def)
  next
    case Wait_check
    then show ?thesis using assms Main
      by (simp add: stuck_def step_def main_step_def check_errors_def)
  qed (insert assms, simp_all add: stuck_def)
next
  case (Cb_put n)
  have no: "\<not> over (pc s)" using assms by (cases "pc s") (simp_all add: stuck_def)
  consider "running s = []" | "running s = [(1, Bytes ''abc'')]"
    using assms by (cases "pc s") (auto simp: stuck_def)
  then show ?thesis
  proof cases
    case 1
    then show ?thesis using assms Cb_put by (simp add: step_def)
  next
    case 2
    show ?thesis
    proof (cases "n = 1")
      case True
      have "step env 1 a s = s\<lparr>running := []\<rparr>"
        using Cb_put True 2 no assms by (simp add: step_def stuck_def bytes_task_raises)
      then show ?thesis using assms by (cases "pc s") (simp_all add: stuck_def)
    next
      case False
      then show ?thesis using assms Cb_put 2 by (simp add: step_def)
    qed
  qed
next
  case Cb_decr
  have "\<not> in_cb s" using assms by (simp add: stuck_def)
  then have "step env 1 a s = s" using Cb_decr by (simp add: step_def)
  then show ?thesis using assms by simp
qed

lemma bytes_item_exec: "stuck s \<Longrightarrow> stuck (exec env 1 sched s)"
  by (induction sched arbitrary: s) (simp_all add: bytes_item_stuck)

lemma bytes_item_waits:
  "\<not> over (pc (upload quiet [Bytes ''abc''] ''k'' 1 False sched))"
proof -
  have pre: "snd (preflight quiet ''k'' False) = None"
    by (simp add: preflight_def initiate_def quiet_def)
  have "stuck (init (fst (preflight quiet ''k'' False)) [Bytes ''abc''])"
    by (simp add: stuck_def init_def numbered_def)
  then have "stuck (upload quiet [Bytes ''abc''] ''k'' 1 False sched)"
    unfolding upload_exec [OF pre] by (rule bytes_item_exec)
  then show ?thesis
    by (cases "pc (upload quiet [Bytes ''abc''] ''k'' 1 False sched)") (simp_all add: stuck_def)
qed

lemma counts:
  "count_list (fst (preflight env key replace) @ ys) Complete_upload = count_list ys Complete_upload"
  "count_list (fst (preflight env key replace) @ ys) Cancel_upload = count_list ys Cancel_upload"
  "count_list (fst (preflight env key replace)) Complete_upload = 0"
  "count_list (fst (preflight env key replace)) Cancel_upload = 0"
  using preflight_log [of env key replace] by (simp_all add: count_free)

text \<open>
  C1, as the code has it. Under every schedule \<^verbatim>\<open>complete_upload\<close> is called at most
  once and \<^verbatim>\<open>cancel_upload\<close> at most once. When every item of the iterable is one
  that \<^verbatim>\<open>upload_part\<close> can take (so that every task returns), the call can run to its
  end from every state it reaches. Once the call is over: if the lines before the
  \<^verbatim>\<open>try\<close> raised (the key exists and \<^verbatim>\<open>replace\<close> is false, or a backend call of
  those lines failed), neither has been called; otherwise at least one has been called,
  and then, if no task fails all its five attempts (and the pool could be made and the
  iterable did not raise), \<^verbatim>\<open>complete_upload\<close> has been called exactly once, and
  \<^verbatim>\<open>cancel_upload\<close> not at all when \<^verbatim>\<open>complete_upload\<close> returned, once when it
  raised; if some task fails all its five attempts, \<^verbatim>\<open>cancel_upload\<close> has been called
  exactly once and \<^verbatim>\<open>complete_upload\<close> never. (By \<open>bytes_item_waits\<close>, a call whose
  task raises can wait for ever with neither called.)
\<close>

theorem upload_complete_or_cancel:
  "(list_all returns iterable \<longrightarrow>
      (\<exists>fin. over (pc (upload env iterable key threads replace (sched @ fin)))))
   \<and> count_list (log (upload env iterable key threads replace sched)) Complete_upload \<le> 1
   \<and> count_list (log (upload env iterable key threads replace sched)) Cancel_upload \<le> 1
   \<and> (over (pc (upload env iterable key threads replace sched)) \<longrightarrow>
        (snd (preflight env key replace) \<noteq> None \<longrightarrow>
           count_list (log (upload env iterable key threads replace sched)) Complete_upload = 0
           \<and> count_list (log (upload env iterable key threads replace sched)) Cancel_upload = 0)
        \<and> (snd (preflight env key replace) = None \<longrightarrow>
           1 \<le> count_list (log (upload env iterable key threads replace sched)) Complete_upload
                 + count_list (log (upload env iterable key threads replace sched)) Cancel_upload
           \<and> (list_all (\<lambda>task. \<not> fails env task) (numbered iterable)
                 \<and> 1 \<le> threads \<and> iter_raises env = None \<longrightarrow>
               count_list (log (upload env iterable key threads replace sched)) Complete_upload = 1
               \<and> count_list (log (upload env iterable key threads replace sched)) Cancel_upload
                   = (if complete_raises env = None then 0 else 1))
           \<and> (list_ex (fails env) (numbered iterable) \<longrightarrow>
               count_list (log (upload env iterable key threads replace sched)) Complete_upload = 0
               \<and> count_list (log (upload env iterable key threads replace sched)) Cancel_upload = 1)))"
proof (cases "snd (preflight env key replace)")
  case (Some e)
  then have "log (upload env iterable key threads replace sched) = fst (preflight env key replace)"
    by (cases "preflight env key replace") (simp add: upload_def init_def)
  moreover have "\<exists>fin. over (pc (upload env iterable key threads replace (sched @ fin)))"
    using Some by (intro upload_can_finish) simp
  ultimately show ?thesis using Some by (simp add: counts)
next
  case None
  let ?s = "upload env iterable key threads replace sched"
  note o = outcome [OF None, of iterable threads sched]
  have f: "list_all returns iterable \<longrightarrow>
      (\<exists>fin. over (pc (upload env iterable key threads replace (sched @ fin))))"
    using upload_can_finish [of iterable env key replace threads sched] by blast
  show ?thesis
  proof (cases "pc ?s")
    case (Finished r)
    then show ?thesis using o f None by (cases r) (auto simp: counts all_not_ex)
  next
    case (Except e)
    then show ?thesis using o f None by (auto simp: counts)
  next
    case Mk_pool then show ?thesis using o f None by (simp add: counts)
  next
    case For_loop then show ?thesis using o f None by (simp add: counts)
  next
    case Incr then show ?thesis using o f None by (simp add: counts)
  next
    case Wait_test then show ?thesis using o f None by (simp add: counts)
  next
    case Wait_check then show ?thesis using o f None by (simp add: counts)
  next
    case Join then show ?thesis using o f None by (simp add: counts)
  next
    case Final_check then show ?thesis using o f None by (simp add: counts)
  next
    case Complete then show ?thesis using o f None by (simp add: counts)
  qed
qed

theorem upload_complete_or_cancel_witness:
  "count_list (log (upload broken [Part (Str ''a'')] ''k'' 5 False
       [Main, Main, Main, Main, Cb_put 1, Cb_decr, Main, Main, Main, Main])) Complete_upload = 0
   \<and> count_list (log (upload broken [Part (Str ''a'')] ''k'' 5 False
       [Main, Main, Main, Main, Cb_put 1, Cb_decr, Main, Main, Main, Main])) Cancel_upload = 1
   \<and> count_list (log (upload quiet [Part (Str ''a'')] ''k'' 5 False
       [Main, Main, Main, Main, Cb_put 1, Cb_decr, Main, Main, Main, Main])) Complete_upload = 1
   \<and> count_list (log (upload quiet [Part (Str ''a'')] ''k'' 5 False
       [Main, Main, Main, Main, Cb_put 1, Cb_decr, Main, Main, Main, Main])) Cancel_upload = 0
   \<and> count_list (log (upload (quiet\<lparr>lookup_result := Inr True\<rparr>) [Part (Str ''a'')] ''k'' 5 False
       [Main, Main, Main, Main, Cb_put 1, Cb_decr, Main, Main, Main, Main])) Complete_upload = 0
   \<and> count_list (log (upload (quiet\<lparr>lookup_result := Inr True\<rparr>) [Part (Str ''a'')] ''k'' 5 False
       [Main, Main, Main, Main, Cb_put 1, Cb_decr, Main, Main, Main, Main])) Cancel_upload = 0
   \<and> (\<exists>fin. over (pc (upload quiet [Part (Str ''a'')] ''k'' 5 False ([Main, Main] @ fin))))"
proof -
  let ?sched = "[Main, Main, Main, Main, Cb_put 1, Cb_decr, Main, Main, Main, Main]"
  let ?there = "quiet\<lparr>lookup_result := Inr True\<rparr>"
  have 1: "snd (preflight broken ''k'' False) = None" "snd (preflight quiet ''k'' False) = None"
    "snd (preflight ?there ''k'' False) \<noteq> None"
    by (simp_all add: run_simps)
  have 2: "over (pc (upload broken [Part (Str ''a'')] ''k'' 5 False ?sched))"
          "over (pc (upload quiet [Part (Str ''a'')] ''k'' 5 False ?sched))"
          "over (pc (upload ?there [Part (Str ''a'')] ''k'' 5 False ?sched))"
    by (simp_all add: run_simps)
  have 3: "list_ex (fails broken) (numbered [Part (Str ''a'')])"
    by (simp add: run_simps)
  have 4: "list_all (\<lambda>task. \<not> fails quiet task) (numbered [Part (Str ''a'')])
           \<and> (1::int) \<le> 5 \<and> iter_raises quiet = None" "complete_raises quiet = None"
    by (simp_all add: run_simps)
  have 5: "list_all returns [Part (Str ''a'')]" by simp
  from upload_complete_or_cancel [of "[Part (Str ''a'')]" broken "''k''" 5 False ?sched] 1(1) 2(1) 3
       upload_complete_or_cancel [of "[Part (Str ''a'')]" quiet "''k''" 5 False ?sched] 1(2) 2(2) 4
       upload_complete_or_cancel [of "[Part (Str ''a'')]" ?there "''k''" 5 False ?sched] 1(3) 2(3)
       upload_complete_or_cancel [of "[Part (Str ''a'')]" quiet "''k''" 5 False "[Main, Main]"] 5
  show ?thesis by simp
qed

text \<open>
  C1 as stated fails twice. With one part that succeeds and a \<^verbatim>\<open>complete_upload\<close>
  that raises, both \<^verbatim>\<open>complete_upload\<close> and \<^verbatim>\<open>cancel_upload\<close> are called. With a key
  that exists and \<^verbatim>\<open>replace\<close> false, the call is over and neither has been called.
\<close>

theorem upload_both_or_neither_counterexample:
  "log (upload (quiet\<lparr>complete_raises := Some (BackendError ''S3ResponseError'')\<rparr>) [Part (Str ''a'')] ''k'' 5 False
          [Main, Main, Main, Main, Cb_put 1, Cb_decr, Main, Main, Main, Main, Main])
     = [S3Connection, Get_bucket, Lookup ''k'', Initiate_multipart_upload ''k'',
        Complete_upload, Cancel_upload]
   \<and> pc (upload (quiet\<lparr>complete_raises := Some (BackendError ''S3ResponseError'')\<rparr>) [Part (Str ''a'')] ''k'' 5 False
          [Main, Main, Main, Main, Cb_put 1, Cb_decr, Main, Main, Main, Main, Main])
     = Finished (Some (BackendError ''S3ResponseError''))
   \<and> task_run (quiet\<lparr>complete_raises := Some (BackendError ''S3ResponseError'')\<rparr>) (1, Part (Str ''a''))
       = Returns None [Seek 0, Upload_func 1 0]
   \<and> log (upload (quiet\<lparr>lookup_result := Inr True\<rparr>) [Part (Str ''a'')] ''k'' 5 False [])
     = [S3Connection, Get_bucket, Lookup ''k'']
   \<and> pc (upload (quiet\<lparr>lookup_result := Inr True\<rparr>) [Part (Str ''a'')] ''k'' 5 False [])
     = Finished (Some (Exception ''s3 key k already exists''))"
  by (simp add: run_simps)

text \<open>
  C4 fails on the code. Line 134 hands the task to the pool before line 135 increments
  the counter; when the task ends and its callback runs between the two lines, the
  counter goes from 0 to -1, with the main thread still before the increment. (By
  \<open>counter_bounds\<close> it never goes below -1 and, for \<^verbatim>\<open>threads\<close> of at least one, never
  above \<^verbatim>\<open>threads\<close>.)
\<close>

theorem counter_negative:
  "counter (upload quiet [Part (Str ''a'')] ''k'' 5 False [Main, Main, Cb_put 1, Cb_decr]) = - 1
   \<and> pc (upload quiet [Part (Str ''a'')] ''k'' 5 False [Main, Main, Cb_put 1, Cb_decr]) = Incr"
  by (simp add: run_simps)

text \<open>
  C7, as the code has it. Once an exception has been caught by the handler of lines
  145-148, however the run goes on: \<^verbatim>\<open>cancel_upload\<close> has not been called as long as
  the main thread has not moved, and it has been called exactly once when it has; the
  call then ends by raising the exception that was caught when \<^verbatim>\<open>cancel_upload\<close>
  returns and the pool had been made, and the exception of \<^verbatim>\<open>cancel_upload\<close> when
  that call raises.
\<close>

theorem abort_once:
  assumes "snd (preflight env key replace) = None"
    and "pc (upload env iterable key threads replace sched) = Except e"
  shows "pc (upload env iterable key threads replace (sched @ rest)) = Except e
           \<and> count_list (log (upload env iterable key threads replace (sched @ rest))) Cancel_upload = 0
           \<and> Main \<notin> set rest
       \<or> pc (upload env iterable key threads replace (sched @ rest))
             = Finished (Some (case cancel_raises env of
                                 Some e' \<Rightarrow> e'
                               | None \<Rightarrow> if 1 \<le> threads then e else UnboundLocalError ''tpool''))
           \<and> count_list (log (upload env iterable key threads replace (sched @ rest))) Cancel_upload = 1
           \<and> Main \<in> set rest"
proof -
  let ?s = "upload env iterable key threads replace sched"
  have tp: "tpool ?s = (1 \<le> threads)"
    using upload_inv [OF assms(1), of threads iterable sched] assms(2) by (simp add: inv_def)
  have lg: "count_list (log ?s) Cancel_upload = 0"
    using outcome [OF assms(1), of iterable threads sched] assms(2) by (auto simp: counts)
  then have lg': "count_list (log ?s @ [Cancel_upload]) Cancel_upload = 1" by simp
  let ?t = "exec env threads rest ?s"
  let ?r = "Finished (Some (case cancel_raises env of
                                 Some e' \<Rightarrow> e'
                               | None \<Rightarrow> if 1 \<le> threads then e else UnboundLocalError ''tpool''))"
  from from_except [OF assms(2), of env threads rest]
  consider "pc ?t = Except e" "log ?t = log ?s" "Main \<notin> set rest"
    | "pc ?t = ?r" "log ?t = log ?s @ [Cancel_upload]" "Main \<in> set rest"
    unfolding tp by blast
  then show ?thesis
  proof cases
    case 1
    then show ?thesis unfolding upload_append [OF assms(1)] using lg by simp
  next
    case 2
    then show ?thesis unfolding upload_append [OF assms(1)] using lg' by simp
  qed
qed

theorem abort_once_witness:
  "pc (upload broken [Part (Str ''a'')] ''k'' 5 False
         ([Main, Main, Main, Main, Cb_put 1, Cb_decr, Main, Main, Main] @ [Main]))
     = Finished (Some (ThreadError ''T1 Boom''))
   \<and> count_list (log (upload broken [Part (Str ''a'')] ''k'' 5 False
         ([Main, Main, Main, Main, Cb_put 1, Cb_decr, Main, Main, Main] @ [Main]))) Cancel_upload = 1"
proof -
  let ?env = "broken"
  let ?sched = "[Main, Main, Main, Main, Cb_put 1, Cb_decr, Main, Main, Main]"
  have 1: "snd (preflight ?env ''k'' False) = None" by (simp add: run_simps)
  have 2: "pc (upload ?env [Part (Str ''a'')] ''k'' 5 False ?sched) = Except (ThreadError ''T1 Boom'')"
    by (simp add: run_simps)
  have 3: "cancel_raises ?env = None" "(1::int) \<le> 5" "Main \<in> set [Main]" by (simp_all add: run_simps)
  from abort_once [OF 1 2, of "[Main]"] 3 show ?thesis by simp
qed

text \<open>
  C7 as stated fails when \<^verbatim>\<open>cancel_upload\<close> raises: the handler has caught the error
  of part 1, and the call ends by raising the exception of \<^verbatim>\<open>cancel_upload\<close> in its
  place.
\<close>

theorem cancel_failure_counterexample:
  "pc (upload (broken\<lparr>cancel_raises := Some (BackendError ''S3ResponseError'')\<rparr>) [Part (Str ''a'')] ''k'' 5 False
         [Main, Main, Main, Main, Cb_put 1, Cb_decr, Main, Main, Main])
     = Except (ThreadError ''T1 Boom'')
   \<and> pc (upload (broken\<lparr>cancel_raises := Some (BackendError ''S3ResponseError'')\<rparr>) [Part (Str ''a'')] ''k'' 5 False
         [Main, Main, Main, Main, Cb_put 1, Cb_decr, Main, Main, Main, Main])
     = Finished (Some (BackendError ''S3ResponseError''))"
  by (simp add: run_simps)








end
